theory Spec2Isabelle
  imports Main
begin

section \<open>The parser queue of Telescope: src/api/parser/src/parser-queue.js\<close>

text \<open>
  The module discovers feed sources from the users service, reconciles each one with the
  Feed store, adds one job per resolved feed to the feed queue, and reacts to the queue's
  \<open>drained\<close> and \<open>failed\<close> events.

  Every function of the module is embedded as a HOL function from the store it runs on to
  the calls it makes on its collaborators (store, queue, logger, users service) in the
  order it makes them, the store it leaves behind, and its result. An exception or a
  rejected promise is the \<open>Inl\<close> of a sum.
\<close>

subsection \<open>Data\<close>

type_synonym ident = nat

text \<open>The object a user record lists under \<open>feeds\<close>: the URL and the per-user data.\<close>

record feedData =
  url :: string
  author :: string

text \<open>
  A persisted Feed (spec, section 3): the discovered fields, the id the store assigned,
  the caching metadata, the validity flag and the reason of an invalidation.
\<close>

record Feed = feedData +
  feed_id :: ident
  etag :: "string option"
  isValid :: bool
  invalidReason :: "string option"

text \<open>
  JavaScript arrays are untyped: the array that \<open>processAllFeeds\<close> hands to
  \<open>processFeeds\<close> holds persisted Feed objects (from \<open>Feed.all()\<close>) and discovered
  objects (from the users service) side by side, and, as \<open>None\<close>, the value \<open>null\<close>.
\<close>

datatype feedObj = Stored Feed | Source feedData

fun data_of :: "feedObj \<Rightarrow> feedData" where
  "data_of (Stored f) = \<lparr>url = url f, author = author f\<rparr>"
| "data_of (Source d) = d"

definition url_of :: "feedObj \<Rightarrow> string" where
  "url_of d = url (data_of d)"

text \<open>The payload of a queue job, \<open>{ id: currentFeed.id }\<close>: one field.\<close>

record job =
  job_id :: ident

record user =
  isFlagged :: bool
  feeds :: "feedData list"

text \<open>What \<open>fetch\<close> resolves to; a rejected \<open>fetch\<close> is \<open>Inl\<close>.\<close>

record response =
  status :: nat
  body :: "user list"

datatype error = TypeError | DuplicateUrl | FetchError

text \<open>
  A call on a collaborator, with what it resolved to where the caller reads the result.
  \<open>Fetch\<close> is the request to the users service of line 64, made with a service token
  created for that request.
\<close>

datatype call =
    Fetch
  | FeedAll
  | ByUrl string "Feed option"
  | Create feedObj "error + ident"
  | ById ident "Feed option"
  | SetInvalid ident string
  | AddFeed job
  | LogInfo string
  | LogError string
  | WorkerStart

subsection \<open>The Feed store\<close>

text \<open>
  The store is \<open>./data/feed\<close>, which is not among the sources. The five operations below
  follow section 4.2 of the specification. A store is the list of its records, oldest
  first. Transient unavailability of the store is not modelled: the only operation that
  fails is a \<open>create\<close> for a URL the store already holds.
\<close>

text \<open>Modelled from the spec: \<open>Feed.byUrl\<close>, "\<open>byUrl(url) -> Feed or not-found\<close>, exact match".\<close>

definition byUrl :: "Feed list \<Rightarrow> string \<Rightarrow> Feed option" where
  "byUrl db u = find (\<lambda>f. url f = u) db"

text \<open>Modelled from the spec: \<open>Feed.byId\<close>, "\<open>byId(id) -> Feed or not-found\<close>".\<close>

definition byId :: "Feed list \<Rightarrow> ident \<Rightarrow> Feed option" where
  "byId db i = find (\<lambda>f. feed_id f = i) db"

text \<open>Modelled from the spec: the id "assigned by store on creation", one no record has.\<close>

definition fresh_id :: "Feed list \<Rightarrow> ident" where
  "fresh_id db = Suc (foldr max (map feed_id db) 0)"

text \<open>
  Modelled from the spec: the record a \<open>create\<close> stores, built from the discovered data
  with the store's defaults: no caching metadata yet, valid.
\<close>

definition new_feed :: "ident \<Rightarrow> feedObj \<Rightarrow> Feed" where
  "new_feed i d =
     \<lparr>url = url_of d, author = author (data_of d), feed_id = i, etag = None,
      isValid = True, invalidReason = None\<rparr>"

text \<open>
  Modelled from the spec: \<open>Feed.create\<close>, "\<open>create(feedData) -> new Feed id\<close>; fails with
  \<open>DuplicateUrl\<close> if invariant would be violated".
\<close>

definition create :: "Feed list \<Rightarrow> feedObj \<Rightarrow> error + (ident \<times> Feed list)" where
  "create db d =
     (if list_ex (\<lambda>f. url f = url_of d) db then Inl DuplicateUrl
      else Inr (fresh_id db, db @ [new_feed (fresh_id db) d]))"

text \<open>Modelled from the spec: \<open>Feed.all\<close>, "\<open>all() -> sequence of all persisted Feeds\<close>".\<close>

definition allFeeds :: "Feed list \<Rightarrow> Feed list" where
  "allFeeds db = db"

text \<open>
  Modelled from the spec: \<open>feed.setInvalid(reason)\<close>, "transitions validity flag and
  records reason; idempotent". The method is called on a loaded Feed object and writes the
  record of that object's id.
\<close>

definition setInvalid :: "Feed list \<Rightarrow> Feed \<Rightarrow> string \<Rightarrow> Feed list" where
  "setInvalid db feed reason =
     map (\<lambda>g. if feed_id g = feed_id feed
               then g\<lparr>isValid := False, invalidReason := Some reason\<rparr> else g) db"

subsection \<open>updateFeed (lines 13-29)\<close>

text \<open>
  Run without interference between its awaits. \<open>feedData.url\<close> on \<open>null\<close> throws a
  TypeError before any call is made. A rejected \<open>Feed.create\<close> is not caught.
\<close>

definition updateFeed ::
  "Feed list \<Rightarrow> feedObj option \<Rightarrow> call list \<times> Feed list \<times> (error + Feed option)" where
  "updateFeed db feedData =
     (case feedData of
        None \<Rightarrow> ([], db, Inl TypeError)
      | Some d \<Rightarrow>
          (let existingFeed = byUrl db (url_of d) in
           case existingFeed of
             Some f \<Rightarrow> ([ByUrl (url_of d) existingFeed], db, Inr existingFeed)
           | None \<Rightarrow>
               (case create db d of
                  Inl e \<Rightarrow> ([ByUrl (url_of d) None, Create d (Inl e)], db, Inl e)
                | Inr (i, db') \<Rightarrow>
                    ([ByUrl (url_of d) None, Create d (Inr i), ById i (byId db' i)],
                     db', Inr (byId db' i)))))"

subsection \<open>invalidateFeed and the \<open>failed\<close> handler (lines 35-40, 98-100)\<close>

text \<open>
  \<open>Feed.byId\<close> resolves to \<open>null\<close> for an id the store does not hold; \<open>feed.setInvalid\<close>
  on \<open>null\<close> throws a TypeError, which rejects the promise of \<open>invalidateFeed\<close>.
\<close>

definition invalidateFeed :: "Feed list \<Rightarrow> ident \<Rightarrow> call list \<times> Feed list \<times> (error + unit)" where
  "invalidateFeed db i =
     (case byId db i of
        None \<Rightarrow> ([ById i None], db, Inl TypeError)
      | Some feed \<Rightarrow>
          ([ById i (Some feed),
            SetInvalid (feed_id feed) ''unknown reason'',
            LogInfo (''Invalidating feed '' @ url feed @
                     '' for the following reason: '' @ ''unknown reason'')],
           setInvalid db feed ''unknown reason'', Inr ()))"

text \<open>
  The handler attaches \<open>.catch\<close> to the promise: a rejection becomes a call of
  \<open>logger.error\<close>, and the handler itself has no failing outcome.
\<close>

definition on_failed :: "Feed list \<Rightarrow> job \<Rightarrow> call list \<times> Feed list" where
  "on_failed db j =
     (case invalidateFeed db (job_id j) of
        (cs, db', Inl e) \<Rightarrow> (cs @ [LogError ''Unable to invalidate feed''], db')
      | (cs, db', Inr u) \<Rightarrow> (cs, db'))"

subsection \<open>processFeeds (lines 46-55)\<close>

text \<open>
  \<open>feeds.map\<close> starts one asynchronous callback per element and \<open>Promise.all\<close> waits for
  them: the callbacks run interleaved, each suspended at one of its awaits. A callback
  is the program point it is suspended at:
  \<^item> \<open>AwaitByUrl d\<close>: in \<open>updateFeed\<close>, \<open>Feed.byUrl(feedData.url)\<close> is pending (line 18);
  \<^item> \<open>AwaitCreate d\<close>: \<open>Feed.create(feedData)\<close> is pending (line 24);
  \<^item> \<open>AwaitById i\<close>: \<open>Feed.byId(id)\<close> is pending (line 25);
  \<^item> \<open>AwaitAddFeed j\<close>: \<open>updateFeed\<close> has returned and \<open>feedQueue.addFeed(j)\<close> is pending
    (line 52);
  \<^item> \<open>Fulfilled\<close>, \<open>Rejected e\<close>: the callback's promise has settled.
\<close>

datatype task =
    AwaitByUrl feedObj
  | AwaitCreate feedObj
  | AwaitById ident
  | AwaitAddFeed job
  | Fulfilled
  | Rejected error

text \<open>
  The callback is entered synchronously by \<open>map\<close>: \<open>updateFeed(null)\<close> throws at
  \<open>feedData.url\<close>, any other element issues \<open>Feed.byUrl\<close>.
\<close>

definition start_task :: "feedObj option \<Rightarrow> task" where
  "start_task feed = (case feed of None \<Rightarrow> Rejected TypeError | Some d \<Rightarrow> AwaitByUrl d)"

text \<open>
  Line 52, once \<open>updateFeed\<close> has resolved to \<open>currentFeed\<close>: \<open>currentFeed.id\<close> throws on
  \<open>null\<close>, otherwise \<open>addFeed\<close> is called with an object holding that id alone.
\<close>

definition enqueue :: "Feed option \<Rightarrow> task" where
  "enqueue currentFeed =
     (case currentFeed of
        None \<Rightarrow> Rejected TypeError
      | Some cur \<Rightarrow> AwaitAddFeed \<lparr>job_id = feed_id cur\<rparr>)"

text \<open>
  One step of a callback: its pending call takes effect on the store and the callback
  runs on to its next await. A settled callback does nothing.
\<close>

fun task_step :: "Feed list \<Rightarrow> task \<Rightarrow> call list \<times> Feed list \<times> task" where
  "task_step db (AwaitByUrl d) =
     (let existingFeed = byUrl db (url_of d) in
      ([ByUrl (url_of d) existingFeed], db,
       case existingFeed of Some f \<Rightarrow> enqueue existingFeed | None \<Rightarrow> AwaitCreate d))"
| "task_step db (AwaitCreate d) =
     (case create db d of
        Inl e \<Rightarrow> ([Create d (Inl e)], db, Rejected e)
      | Inr (i, db') \<Rightarrow> ([Create d (Inr i)], db', AwaitById i))"
| "task_step db (AwaitById i) = ([ById i (byId db i)], db, enqueue (byId db i))"
| "task_step db (AwaitAddFeed j) = ([AddFeed j], db, Fulfilled)"
| "task_step db Fulfilled = ([], db, Fulfilled)"
| "task_step db (Rejected e) = ([], db, Rejected e)"

text \<open>
  The callbacks of one \<open>processFeeds\<close> call: the store they share, the calls made so far,
  each tagged with the index of the array element whose callback made it, and the
  callbacks themselves.
\<close>

record pool =
  store :: "Feed list"
  trace :: "(nat \<times> call) list"
  tasks :: "task list"

definition pool_step :: "nat \<Rightarrow> pool \<Rightarrow> pool" where
  "pool_step k p =
     (if k < length (tasks p) then
        (case task_step (store p) (tasks p ! k) of
           (cs, db', t') \<Rightarrow>
             \<lparr>store = db', trace = trace p @ map (Pair k) cs, tasks = (tasks p)[k := t']\<rparr>)
      else p)"

text \<open>
  The order in which pending calls complete is not fixed by the module. It is the
  schedule: the list of the indices of the callbacks that step, in order. Callbacks are
  not cancelled when one of them rejects.
\<close>

definition processFeeds :: "nat list \<Rightarrow> Feed list \<Rightarrow> feedObj option list \<Rightarrow> pool" where
  "processFeeds sched db fs =
     fold pool_step sched \<lparr>store = db, trace = [], tasks = map start_task fs\<rparr>"

fun is_rejected :: "task \<Rightarrow> bool" where
  "is_rejected (Rejected e) = True"
| "is_rejected t = False"

text \<open>\<open>Promise.all\<close> rejects as soon as one callback has rejected.\<close>

definition rejected :: "pool \<Rightarrow> bool" where
  "rejected p = list_ex is_rejected (tasks p)"

text \<open>\<open>Promise.all\<close> fulfils when every callback has fulfilled.\<close>

definition fulfilled :: "pool \<Rightarrow> bool" where
  "fulfilled p = list_all (\<lambda>t. t = Fulfilled) (tasks p)"

text \<open>The calls the callback of element \<open>k\<close> has made, in order.\<close>

definition calls_of :: "nat \<Rightarrow> (nat \<times> call) list \<Rightarrow> call list" where
  "calls_of k tr = map snd (filter (\<lambda>e. fst e = k) tr)"

fun is_addFeed :: "call \<Rightarrow> bool" where
  "is_addFeed (AddFeed j) = True"
| "is_addFeed c = False"

text \<open>The number of \<open>feedQueue.addFeed\<close> calls in a trace.\<close>

definition addFeed_calls :: "(nat \<times> call) list \<Rightarrow> nat" where
  "addFeed_calls tr = length (filter (\<lambda>e. is_addFeed (snd e)) tr)"

subsection \<open>processAllFeeds (lines 61-79)\<close>

text \<open>
  Line 71: \<open>flatMap\<close> flattens one level of arrays only. For a flagged user the callback
  returns \<open>null\<close>, which is not an array and is kept as an element of the result.
\<close>

definition userFeeds :: "user list \<Rightarrow> feedObj option list" where
  "userFeeds users =
     concat (map (\<lambda>user. if \<not> isFlagged user then map (\<lambda>d. Some (Source d)) (feeds user)
                          else [None]) users)"

text \<open>
  One pass, given what \<open>fetch\<close> settles to and the schedule of the callbacks. The result
  is the calls \<open>processAllFeeds\<close> makes itself and the pool of \<open>processFeeds\<close>. The
  \<open>catch\<close> block logs a rejected \<open>fetch\<close> and a rejected \<open>Promise.all\<close>; a status other
  than 200 ends the pass silently.
\<close>

definition processAllFeeds ::
  "nat list \<Rightarrow> error + response \<Rightarrow> Feed list \<Rightarrow> call list \<times> pool" where
  "processAllFeeds sched res db =
     (case res of
        Inl err \<Rightarrow>
          ([Fetch, LogError ''Error queuing feeds''], \<lparr>store = db, trace = [], tasks = []\<rparr>)
      | Inr r \<Rightarrow>
          if status r = 200 then
            (let all = allFeeds db;
                 p = processFeeds sched db (map (\<lambda>f. Some (Stored f)) all @ userFeeds (body r))
             in ([Fetch, FeedAll] @ (if rejected p then [LogError ''Error queuing feeds''] else []),
                 p))
          else ([Fetch], \<lparr>store = db, trace = [], tasks = []\<rparr>))"

subsection \<open>The cycle: loadFeedsIntoQueue, the \<open>drained\<close> handler, startParserQueue\<close>

text \<open>
  \<open>loadFeedsIntoQueue\<close> calls \<open>processAllFeeds()\<close> without awaiting it: the pass runs on
  while the event loop handles further events. The controller's state is the number of
  passes that have been started and have not settled yet, with the calls made.
\<close>

record cycle =
  running :: nat
  cycle_calls :: "call list"

definition loadFeedsIntoQueue :: "cycle \<Rightarrow> cycle" where
  "loadFeedsIntoQueue c =
     \<lparr>running = Suc (running c),
      cycle_calls = cycle_calls c @
        [LogInfo ''Loading all feeds into feed queue for processing'', Fetch]\<rparr>"

definition startParserQueue :: "cycle \<Rightarrow> cycle" where
  "startParserQueue c =
     (let c' = loadFeedsIntoQueue c in c'\<lparr>cycle_calls := cycle_calls c' @ [WorkerStart]\<rparr>)"

text \<open>
  What the controller reacts to: the exported \<open>startParserQueue\<close> being called, the
  queue's \<open>drained\<close> event (line 92), and the promise of a running pass settling.
\<close>

datatype event = Start | Drained | Settled

fun handle :: "event \<Rightarrow> cycle \<Rightarrow> cycle" where
  "handle Start c = startParserQueue c"
| "handle Drained c = loadFeedsIntoQueue c"
| "handle Settled c = c\<lparr>running := running c - 1\<rparr>"

definition idle :: cycle where
  "idle = \<lparr>running = 0, cycle_calls = []\<rparr>"

subsection \<open>What a callback has done so far\<close>

text \<open>
  The statements about \<open>processFeeds\<close> hold for every schedule. They rest on three
  properties that every step of a pool keeps; the definitions below only state them.
\<close>

text \<open>
  \<open>pre\<close> is the call sequence of an \<open>updateFeed(d)\<close> that has returned the feed \<open>f\<close>:
  a lookup that found \<open>f\<close>, or a lookup that found nothing, a successful create and a
  re-read that resolved to \<open>f\<close>.
\<close>

definition resolved :: "feedObj \<Rightarrow> call list \<Rightarrow> Feed \<Rightarrow> bool" where
  "resolved d pre f =
     (pre = [ByUrl (url_of d) (Some f)] \<or>
      (\<exists>i. pre = [ByUrl (url_of d) None, Create d (Inr i), ById i (Some f)]))"

text \<open>
  The callback of element \<open>e\<close> has made the calls \<open>h\<close> and is at program point \<open>t\<close>: the
  calls a callback has made determine where it is.
\<close>

fun at_point :: "feedObj option \<Rightarrow> call list \<Rightarrow> task \<Rightarrow> bool" where
  "at_point None h t = (h = [] \<and> t = Rejected TypeError)"
| "at_point (Some d) h (AwaitByUrl d') = (d' = d \<and> h = [])"
| "at_point (Some d) h (AwaitCreate d') = (d' = d \<and> h = [ByUrl (url_of d) None])"
| "at_point (Some d) h (AwaitById i) = (h = [ByUrl (url_of d) None, Create d (Inr i)])"
| "at_point (Some d) h (AwaitAddFeed j) = (\<exists>f. j = \<lparr>job_id = feed_id f\<rparr> \<and> resolved d h f)"
| "at_point (Some d) h Fulfilled =
     (\<exists>f pre. h = pre @ [AddFeed \<lparr>job_id = feed_id f\<rparr>] \<and> resolved d pre f)"
| "at_point (Some d) h (Rejected e) =
     (h = [ByUrl (url_of d) None, Create d (Inl e)] \<or>
      (e = TypeError \<and> (\<exists>i. h = [ByUrl (url_of d) None, Create d (Inr i), ById i None])))"

text \<open>Every callback of the pool for the array \<open>fs\<close> is where its calls say it is.\<close>

definition traced :: "feedObj option list \<Rightarrow> pool \<Rightarrow> bool" where
  "traced fs p =
     (length (tasks p) = length fs \<and>
      (\<forall>e \<in> set (trace p). fst e < length fs) \<and>
      (\<forall>k < length fs. at_point (fs ! k) (calls_of k (trace p)) (tasks p ! k)))"

text \<open>There are as many \<open>addFeed\<close> calls as fulfilled callbacks.\<close>

definition counted :: "pool \<Rightarrow> bool" where
  "counted p = (addFeed_calls (trace p) = length (filter (\<lambda>t. t = Fulfilled) (tasks p)))"

text \<open>The Feed a lookup resolved to, if the call is a lookup that found one.\<close>

fun result_of :: "call \<Rightarrow> Feed option" where
  "result_of (ByUrl u r) = r"
| "result_of (ById i r) = r"
| "result_of c = None"

text \<open>Every Feed a lookup of the pool has resolved to is still a record of the store.\<close>

definition held :: "pool \<Rightarrow> bool" where
  "held p = (\<forall>e \<in> set (trace p). \<forall>f. result_of (snd e) = Some f \<longrightarrow> f \<in> set (store p))"

text \<open>The callback's promise has settled.\<close>

fun is_settled :: "task \<Rightarrow> bool" where
  "is_settled Fulfilled = True"
| "is_settled (Rejected e) = True"
| "is_settled t = False"

text \<open>
  A call on the store or the queue that failed. In this model the one operation that
  can fail is a \<open>Feed.create\<close> that the store rejects.
\<close>

fun failed :: "call \<Rightarrow> bool" where
  "failed (Create d (Inl e)) = True"
| "failed c = False"

text \<open>
  A re-read finds the record: the id a callback is about to re-read is an id of the
  store, and no re-read of the pool has resolved to \<open>null\<close>.
\<close>

definition reread :: "pool \<Rightarrow> bool" where
  "reread p =
     ((\<forall>t \<in> set (tasks p). \<forall>i. t = AwaitById i \<longrightarrow> byId (store p) i \<noteq> None) \<and>
      (\<forall>e \<in> set (trace p). \<forall>i. snd e \<noteq> ById i None))"

text \<open>
  The store of a pool that started on \<open>db\<close> is \<open>db\<close> with records appended, and a
  lookup of a URL that \<open>db\<close> holds has resolved to the record \<open>db\<close> holds for it.
\<close>

definition seen :: "Feed list \<Rightarrow> pool \<Rightarrow> bool" where
  "seen db p =
     ((\<exists>ext. store p = db @ ext) \<and>
      (\<forall>e \<in> set (trace p). \<forall>u r f. snd e = ByUrl u r \<longrightarrow> byUrl db u = Some f \<longrightarrow> r = Some f))"

subsection \<open>Example data\<close>

text \<open>
  A persisted feed that carries caching metadata, a discovered source for the same URL
  whose author differs, and a discovered source for another URL.
\<close>

definition feedA :: Feed where
  "feedA = \<lparr>url = ''https://a.example/feed'', author = ''Ann'', feed_id = 1,
            etag = Some ''W/1'', isValid = True, invalidReason = None\<rparr>"

definition srcA :: feedData where
  "srcA = \<lparr>url = ''https://a.example/feed'', author = ''Ann B.''\<rparr>"

definition srcB :: feedData where
  "srcB = \<lparr>url = ''https://b.example/feed'', author = ''Bob''\<rparr>"

text \<open>
  Directory responses with status 200: one user whose feed the store already holds; one
  user who lists the same new URL twice; a flagged user with one feed followed by an
  unflagged user with one feed.
\<close>

definition resp_rediscovered :: response where
  "resp_rediscovered = \<lparr>status = 200, body = [\<lparr>isFlagged = False, feeds = [srcA]\<rparr>]\<rparr>"

definition resp_same_url :: response where
  "resp_same_url = \<lparr>status = 200, body = [\<lparr>isFlagged = False, feeds = [srcB, srcB]\<rparr>]\<rparr>"

definition resp_flagged :: response where
  "resp_flagged =
     \<lparr>status = 200, body = [\<lparr>isFlagged = True, feeds = [srcA]\<rparr>,
                            \<lparr>isFlagged = False, feeds = [srcB]\<rparr>]\<rparr>"

text \<open>The record the store creates for \<open>srcB\<close> when it assigns the id \<open>i\<close>.\<close>

definition feedB :: "ident \<Rightarrow> Feed" where
  "feedB i = \<lparr>url = ''https://b.example/feed'', author = ''Bob'', feed_id = i,
              etag = None, isValid = True, invalidReason = None\<rparr>"

text \<open>A directory response with status 200: one user who lists a feed the store holds and a new one.\<close>

definition resp_mixed :: response where
  "resp_mixed = \<lparr>status = 200, body = [\<lparr>isFlagged = False, feeds = [srcA, srcB]\<rparr>]\<rparr>"

section \<open>Properties\<close>

subsection \<open>The store\<close>

lemma fresh_id_gt: "f \<in> set db \<Longrightarrow> feed_id f < fresh_id db"
  unfolding fresh_id_def by (induction db) auto

lemma find_snoc:
  "find P (xs @ [x]) =
     (case find P xs of None \<Rightarrow> (if P x then Some x else None) | Some y \<Rightarrow> Some y)"
  by (induction xs) auto

lemma find_None_fresh: "find (\<lambda>f. feed_id f = fresh_id db) db = None"
  using fresh_id_gt by (fastforce simp: find_None_iff)

lemma url_new_feed: "url (new_feed i d) = url_of d"
  by (simp add: new_feed_def)

lemma feed_id_new_feed: "feed_id (new_feed i d) = i"
  by (simp add: new_feed_def)

lemma create_absent:
  "byUrl db (url_of d) = None \<Longrightarrow>
   create db d = Inr (fresh_id db, db @ [new_feed (fresh_id db) d])"
  by (auto simp: byUrl_def create_def find_None_iff list_ex_iff)

lemma create_present: "byUrl db (url_of d) = Some f \<Longrightarrow> create db d = Inl DuplicateUrl"
  by (auto simp: byUrl_def create_def list_ex_iff find_Some_iff)

lemma byId_created:
  "byId (db @ [new_feed (fresh_id db) d]) (fresh_id db) = Some (new_feed (fresh_id db) d)"
  by (simp add: byId_def find_snoc find_None_fresh feed_id_new_feed)

lemma byUrl_created:
  "byUrl db (url_of d) = None \<Longrightarrow> byUrl (db @ [new_feed i d]) (url_of d) = Some (new_feed i d)"
  by (simp add: byUrl_def find_snoc url_new_feed)

lemma byId_feed_id: "byId db i = Some f \<Longrightarrow> feed_id f = i"
  by (auto simp: byId_def find_Some_iff)

lemma count_url_absent: "byUrl db u = None \<Longrightarrow> filter (\<lambda>g. url g = u) db = []"
  by (auto simp: byUrl_def find_None_iff filter_empty_conv)

lemma count_url_present: "byUrl db u = Some f \<Longrightarrow> 1 \<le> length (filter (\<lambda>g. url g = u) db)"
proof -
  assume "byUrl db u = Some f"
  then have "f \<in> set db" "url f = u"
    by (auto simp: byUrl_def find_Some_iff)
  then have "f \<in> set (filter (\<lambda>g. url g = u) db)" by simp
  then show ?thesis
    by (cases "filter (\<lambda>g. url g = u) db") auto
qed

lemma find_invalidated:
  "find (\<lambda>g. feed_id g = i)
     (map (\<lambda>g. if feed_id g = i then g\<lparr>isValid := False, invalidReason := Some r\<rparr> else g) db) =
   map_option (\<lambda>g. g\<lparr>isValid := False, invalidReason := Some r\<rparr>) (find (\<lambda>g. feed_id g = i) db)"
  by (induction db) auto

lemma byUrl_feedA: "byUrl [feedA] (url_of (Source srcA)) = Some feedA"
  by (simp add: byUrl_def url_of_def feedA_def srcA_def)

lemma byUrl_empty: "byUrl [] u = None"
  by (simp add: byUrl_def)

subsection \<open>Reconciliation\<close>

text \<open>
  Claim C3. When \<open>Feed.byUrl\<close> finds a persisted feed for the URL of the discovered
  object, \<open>updateFeed\<close> makes that one call and no other (no \<open>create\<close>, no write), leaves
  the store as it was, and returns the persisted record itself, every field of it
  untouched, whatever the discovered object holds.
\<close>

theorem updateFeed_prefers_existing:
  "byUrl db (url_of d) = Some f \<Longrightarrow>
   updateFeed db (Some d) = ([ByUrl (url_of d) (Some f)], db, Inr (Some f))"
  by (simp add: updateFeed_def Let_def)

text \<open>
  The stored feed of the example has an etag and the author \<open>Ann\<close>; the discovered source
  for its URL says \<open>Ann B.\<close>; the stored record comes back.
\<close>

theorem updateFeed_prefers_existing_witness:
  "byUrl [feedA] (url_of (Source srcA)) = Some feedA \<and>
   updateFeed [feedA] (Some (Source srcA)) =
     ([ByUrl (url_of (Source srcA)) (Some feedA)], [feedA], Inr (Some feedA)) \<and>
   etag feedA = Some ''W/1'' \<and> author feedA \<noteq> author srcA"
  using byUrl_feedA updateFeed_prefers_existing [OF byUrl_feedA]
  by (simp add: feedA_def srcA_def)

text \<open>
  Claim C8. When \<open>Feed.byUrl\<close> finds nothing for the URL, \<open>updateFeed\<close> calls
  \<open>Feed.create\<close> with the discovered object, then \<open>Feed.byId\<close> with the id that \<open>create\<close>
  returned, and returns what \<open>byId\<close> resolved to: the record the store now holds under
  that id, not the object it was given.
\<close>

theorem updateFeed_creates_then_rereads:
  "byUrl db (url_of d) = None \<Longrightarrow>
   create db d = Inr (fresh_id db, db @ [new_feed (fresh_id db) d]) \<and>
   byId (db @ [new_feed (fresh_id db) d]) (fresh_id db) = Some (new_feed (fresh_id db) d) \<and>
   updateFeed db (Some d) =
     ([ByUrl (url_of d) None, Create d (Inr (fresh_id db)),
       ById (fresh_id db) (Some (new_feed (fresh_id db) d))],
      db @ [new_feed (fresh_id db) d], Inr (Some (new_feed (fresh_id db) d)))"
  by (simp add: updateFeed_def Let_def create_absent byId_created)

theorem updateFeed_creates_then_rereads_witness:
  "byUrl [] (url_of (Source srcB)) = None \<and>
   updateFeed [] (Some (Source srcB)) =
     ([ByUrl ''https://b.example/feed'' None, Create (Source srcB) (Inr 1),
       ById 1 (Some \<lparr>url = ''https://b.example/feed'', author = ''Bob'', feed_id = 1,
                     etag = None, isValid = True, invalidReason = None\<rparr>)],
      [\<lparr>url = ''https://b.example/feed'', author = ''Bob'', feed_id = 1,
        etag = None, isValid = True, invalidReason = None\<rparr>],
      Inr (Some \<lparr>url = ''https://b.example/feed'', author = ''Bob'', feed_id = 1,
                 etag = None, isValid = True, invalidReason = None\<rparr>))"
  using updateFeed_creates_then_rereads [OF byUrl_empty, of "Source srcB"]
  by (simp add: byUrl_empty fresh_id_def new_feed_def url_of_def srcB_def)

text \<open>
  Claim C4. Two \<open>updateFeed\<close> calls for the same URL, the second running on the store the
  first one left, resolve to the same Feed, hence the same id. The second call only reads,
  and after both the store holds one record for the URL if it held none before, and as
  many as before otherwise: no second record is created for the URL.
\<close>

theorem updateFeed_twice:
  assumes "url_of d' = url_of d"
    and "updateFeed db (Some d) = (cs1, db1, r1)"
    and "updateFeed db1 (Some d') = (cs2, db2, r2)"
  shows "\<exists>f. r1 = Inr (Some f) \<and> r2 = Inr (Some f) \<and> db2 = db1 \<and>
           cs2 = [ByUrl (url_of d) (Some f)] \<and>
           length (filter (\<lambda>g. url g = url_of d) db2) =
             max 1 (length (filter (\<lambda>g. url g = url_of d) db))"
proof (cases "byUrl db (url_of d)")
  case None
  let ?n = "new_feed (fresh_id db) d"
  from None assms(2) have 1: "db1 = db @ [?n]" "r1 = Inr (Some ?n)"
    by (auto simp: updateFeed_def Let_def create_absent byId_created)
  have 2: "byUrl db1 (url_of d') = Some ?n"
    using None by (simp add: 1 assms(1) byUrl_created)
  from assms(3) have 3: "db2 = db1" "r2 = Inr (Some ?n)" "cs2 = [ByUrl (url_of d) (Some ?n)]"
    using 2 by (auto simp: updateFeed_def Let_def assms(1))
  show ?thesis
    using 1 3 by (simp add: count_url_absent[OF None] url_new_feed)
next
  case (Some f)
  from assms(2) have 1: "db1 = db" "r1 = Inr (Some f)"
    using Some by (auto simp: updateFeed_def Let_def)
  have 2: "byUrl db1 (url_of d') = Some f"
    using Some by (simp add: 1 assms(1))
  from assms(3) have 3: "db2 = db1" "r2 = Inr (Some f)" "cs2 = [ByUrl (url_of d) (Some f)]"
    using 2 by (auto simp: updateFeed_def Let_def assms(1))
  show ?thesis
    using 1 3 count_url_present[OF Some] by simp
qed

text \<open>
  On the empty store the first call creates the feed with id 1 and the second call, for
  the same source, finds it.
\<close>

theorem updateFeed_twice_witness:
  "url_of (Source srcB) = url_of (Source srcB) \<and>
   updateFeed [] (Some (Source srcB)) =
     ([ByUrl (url_of (Source srcB)) None, Create (Source srcB) (Inr 1),
       ById 1 (Some (new_feed 1 (Source srcB)))],
      [new_feed 1 (Source srcB)], Inr (Some (new_feed 1 (Source srcB)))) \<and>
   updateFeed [new_feed 1 (Source srcB)] (Some (Source srcB)) =
     ([ByUrl (url_of (Source srcB)) (Some (new_feed 1 (Source srcB)))],
      [new_feed 1 (Source srcB)], Inr (Some (new_feed 1 (Source srcB)))) \<and>
   (\<exists>f. (Inr (Some (new_feed 1 (Source srcB))) :: error + Feed option) = Inr (Some f) \<and>
        length (filter (\<lambda>g. url g = url_of (Source srcB)) [new_feed 1 (Source srcB)]) =
          max 1 (length (filter (\<lambda>g. url g = url_of (Source srcB)) ([] :: Feed list))))"
proof -
  have a: "updateFeed [] (Some (Source srcB)) =
     ([ByUrl (url_of (Source srcB)) None, Create (Source srcB) (Inr 1),
       ById 1 (Some (new_feed 1 (Source srcB)))],
      [new_feed 1 (Source srcB)], Inr (Some (new_feed 1 (Source srcB))))"
    by (simp add: updateFeed_def Let_def byUrl_def create_def byId_def fresh_id_def
        feed_id_new_feed)
  have b: "updateFeed [new_feed 1 (Source srcB)] (Some (Source srcB)) =
     ([ByUrl (url_of (Source srcB)) (Some (new_feed 1 (Source srcB)))],
      [new_feed 1 (Source srcB)], Inr (Some (new_feed 1 (Source srcB))))"
    by (simp add: updateFeed_def Let_def byUrl_def url_new_feed)
  from updateFeed_twice [OF refl a b] a b show ?thesis
    by auto
qed

subsection \<open>Invalidation\<close>

text \<open>
  Claim C6. The handler of a \<open>failed\<close> event for a job with feed id X: if the store holds
  X, the record of X is afterwards invalid with the reason \<open>unknown reason\<close>, which is not
  empty, the other fields as they were; if the store does not hold X, the store is left as
  it was, and the TypeError of \<open>feed.setInvalid\<close> on \<open>null\<close> ends in the handler's
  \<open>logger.error\<close> call.
\<close>

theorem failed_event_invalidates:
  "(byId db (job_id j) = Some f \<longrightarrow>
      on_failed db j =
        ([ById (job_id j) (Some f), SetInvalid (job_id j) ''unknown reason'',
          LogInfo (''Invalidating feed '' @ url f @ '' for the following reason: unknown reason'')],
         setInvalid db f ''unknown reason'') \<and>
      byId (snd (on_failed db j)) (job_id j) =
        Some (f\<lparr>isValid := False, invalidReason := Some ''unknown reason''\<rparr>) \<and>
      ''unknown reason'' \<noteq> [])
   \<and> (byId db (job_id j) = None \<longrightarrow>
      on_failed db j = ([ById (job_id j) None, LogError ''Unable to invalidate feed''], db))"
proof (intro conjI impI)
  assume a: "byId db (job_id j) = Some f"
  then have i: "feed_id f = job_id j" by (rule byId_feed_id)
  show 1: "on_failed db j =
        ([ById (job_id j) (Some f), SetInvalid (job_id j) ''unknown reason'',
          LogInfo (''Invalidating feed '' @ url f @ '' for the following reason: unknown reason'')],
         setInvalid db f ''unknown reason'')"
    using a i by (simp add: on_failed_def invalidateFeed_def)
  show "byId (snd (on_failed db j)) (job_id j) =
        Some (f\<lparr>isValid := False, invalidReason := Some ''unknown reason''\<rparr>)"
    using a unfolding 1 by (simp add: setInvalid_def i byId_def find_invalidated)
  show "''unknown reason'' \<noteq> []" by simp
next
  assume "byId db (job_id j) = None"
  then show "on_failed db j = ([ById (job_id j) None, LogError ''Unable to invalidate feed''], db)"
    by (simp add: on_failed_def invalidateFeed_def)
qed

text \<open>A failed job for feed 1, which the store holds, and one for feed 2, which it does not.\<close>

theorem failed_event_invalidates_witness:
  "byId [feedA] (job_id \<lparr>job_id = 1\<rparr>) = Some feedA \<and>
   snd (on_failed [feedA] \<lparr>job_id = 1\<rparr>) =
     [feedA\<lparr>isValid := False, invalidReason := Some ''unknown reason''\<rparr>] \<and>
   byId (snd (on_failed [feedA] \<lparr>job_id = 1\<rparr>)) 1 =
     Some (feedA\<lparr>isValid := False, invalidReason := Some ''unknown reason''\<rparr>) \<and>
   byId [feedA] (job_id \<lparr>job_id = 2\<rparr>) = None \<and>
   on_failed [feedA] \<lparr>job_id = 2\<rparr> = ([ById 2 None, LogError ''Unable to invalidate feed''], [feedA])"
proof -
  have 1: "byId [feedA] (job_id \<lparr>job_id = 1\<rparr>) = Some feedA"
    by (simp add: byId_def feedA_def)
  have 2: "byId [feedA] (job_id \<lparr>job_id = 2\<rparr>) = None"
    by (simp add: byId_def feedA_def)
  from failed_event_invalidates [of "[feedA]" "\<lparr>job_id = 1\<rparr>" feedA]
    failed_event_invalidates [of "[feedA]" "\<lparr>job_id = 2\<rparr>" feedA] 1 2
  show ?thesis
    by (simp add: setInvalid_def byId_def feedA_def)
qed

subsection \<open>A pass whose directory fetch fails\<close>

text \<open>
  Claim C7. If \<open>fetch\<close> rejects, or resolves with a status other than 200, the pass starts
  no callback: it makes no \<open>addFeed\<close> call and no call on the Feed store at all, and the
  store is as it was. The pass itself only calls \<open>fetch\<close> and, when \<open>fetch\<close> rejected,
  \<open>logger.error\<close>.
\<close>

theorem failed_fetch_touches_nothing:
  "(case res of Inl e \<Rightarrow> True | Inr r \<Rightarrow> status r \<noteq> 200) \<Longrightarrow>
   snd (processAllFeeds sched res db) = \<lparr>store = db, trace = [], tasks = []\<rparr> \<and>
   addFeed_calls (trace (snd (processAllFeeds sched res db))) = 0 \<and>
   fst (processAllFeeds sched res db) =
     (case res of Inl e \<Rightarrow> [Fetch, LogError ''Error queuing feeds''] | Inr r \<Rightarrow> [Fetch])"
  by (auto simp: processAllFeeds_def addFeed_calls_def split: sum.splits)

text \<open>A rejected fetch, and a response with status 503 that lists a user with a feed.\<close>

theorem failed_fetch_touches_nothing_witness:
  "processAllFeeds [0, 0, 1] (Inl FetchError) [feedA] =
     ([Fetch, LogError ''Error queuing feeds''], \<lparr>store = [feedA], trace = [], tasks = []\<rparr>) \<and>
   status \<lparr>status = 503, body = [\<lparr>isFlagged = False, feeds = [srcB]\<rparr>]\<rparr> \<noteq> 200 \<and>
   processAllFeeds [0, 0, 1] (Inr \<lparr>status = 503, body = [\<lparr>isFlagged = False, feeds = [srcB]\<rparr>]\<rparr>)
       [feedA] =
     ([Fetch], \<lparr>store = [feedA], trace = [], tasks = []\<rparr>)"
  using failed_fetch_touches_nothing [of "Inl FetchError" "[0, 0, 1]" "[feedA]"]
    failed_fetch_touches_nothing
      [of "Inr \<lparr>status = 503, body = [\<lparr>isFlagged = False, feeds = [srcB]\<rparr>]\<rparr>" "[0, 0, 1]" "[feedA]"]
  by (simp add: prod_eq_iff)

subsection \<open>The cycle\<close>

text \<open>
  Against claim C9 as stated: \<open>startParserQueue\<close> followed by a \<open>drained\<close> event that
  arrives before the first pass has settled leaves two passes running.
\<close>

theorem two_passes_running: "\<not> running (fold handle [Start, Drained] idle) \<le> 1"
  by (simp add: startParserQueue_def loadFeedsIntoQueue_def Let_def idle_def)

lemma running_handle: "e \<noteq> Settled \<Longrightarrow> running (handle e c) = Suc (running c)"
  by (cases e) (simp_all add: startParserQueue_def loadFeedsIntoQueue_def Let_def)

text \<open>
  Claim C9, amended. Neither trigger looks at whether a pass is running: a call of
  \<open>startParserQueue\<close> and a \<open>drained\<close> event each start one more pass, whatever the
  number of passes already running. After any sequence of triggers during which no pass
  settles, as many more passes are running as triggers have arrived.
\<close>

theorem every_trigger_starts_a_pass:
  "list_all (\<lambda>e. e \<noteq> Settled) evs \<Longrightarrow> running (fold handle evs c) = running c + length evs"
proof (induction evs arbitrary: c)
  case Nil
  then show ?case by simp
next
  case (Cons e evs)
  then show ?case by (simp add: running_handle)
qed

text \<open>A start and two \<open>drained\<close> events before any pass settles: three passes run.\<close>

theorem every_trigger_starts_a_pass_witness:
  "list_all (\<lambda>e. e \<noteq> Settled) [Start, Drained, Drained] \<and>
   running (fold handle [Start, Drained, Drained] idle) =
     running idle + length [Start, Drained, Drained] \<and>
   running idle + length [Start, Drained, Drained] = 3"
proof -
  have 1: "list_all (\<lambda>e. e \<noteq> Settled) [Start, Drained, Drained]" by simp
  from every_trigger_starts_a_pass [OF 1, of idle] 1 show ?thesis
    by (simp add: idle_def)
qed

subsection \<open>Steps of a pool\<close>

lemma fold_pool_step_induct:
  assumes "I p" and "\<And>k q. I q \<Longrightarrow> I (pool_step k q)"
  shows "I (fold pool_step sched p)"
  using assms(1) by (induction sched arbitrary: p) (auto intro: assms(2))

lemma length_tasks_pool_step: "length (tasks (pool_step k p)) = length (tasks p)"
  by (auto simp: pool_step_def split: prod.splits)

lemma length_tasks_fold: "length (tasks (fold pool_step sched p)) = length (tasks p)"
  by (induction sched arbitrary: p) (auto simp: length_tasks_pool_step)

lemma length_tasks_processFeeds: "length (tasks (processFeeds sched db fs)) = length fs"
  by (simp add: processFeeds_def length_tasks_fold)

lemma processFeeds_append:
  "processFeeds (s1 @ k # s2) db fs = fold pool_step s2 (pool_step k (processFeeds s1 db fs))"
  by (simp add: processFeeds_def)

lemma processAllFeeds_200:
  "status r = 200 \<Longrightarrow>
   processAllFeeds sched (Inr r) db =
     ([Fetch, FeedAll] @
      (if rejected (processFeeds sched db (map (\<lambda>f. Some (Stored f)) db @ userFeeds (body r)))
       then [LogError ''Error queuing feeds''] else []),
      processFeeds sched db (map (\<lambda>f. Some (Stored f)) db @ userFeeds (body r)))"
  by (simp add: processAllFeeds_def allFeeds_def Let_def)

lemma calls_of_append:
  "calls_of k (tr @ map (Pair j) cs) = calls_of k tr @ (if j = k then cs else [])"
  by (simp add: calls_of_def filter_map comp_def)

lemma calls_of_mem: "c \<in> set (calls_of k tr) \<Longrightarrow> (k, c) \<in> set tr"
  by (auto simp: calls_of_def)

text \<open>One \<open>addFeed\<close> call per fulfilled callback.\<close>

lemma enqueue_not_Fulfilled: "enqueue r \<noteq> Fulfilled"
  by (simp add: enqueue_def split: option.splits)

lemma start_task_not_Fulfilled: "start_task e \<noteq> Fulfilled"
  by (simp add: start_task_def split: option.splits)

lemma task_step_count:
  "task_step db t = (cs, db', t') \<Longrightarrow>
   length (filter is_addFeed cs) + (if t = Fulfilled then 1 else 0) =
     (if t' = Fulfilled then 1 else (0::nat))"
  by (cases t) (auto simp: Let_def enqueue_not_Fulfilled split: option.splits sum.splits)

lemma addFeed_calls_append:
  "addFeed_calls (tr @ map (Pair k) cs) = addFeed_calls tr + length (filter is_addFeed cs)"
  by (simp add: addFeed_calls_def filter_map comp_def)

lemma count_list_update:
  "k < length ts \<Longrightarrow>
   length (filter P (ts[k := t])) + (if P (ts ! k) then 1 else 0) =
     length (filter P ts) + (if P t then 1 else (0::nat))"
proof (induction ts arbitrary: k)
  case Nil
  then show ?case by simp
next
  case (Cons a ts)
  then show ?case by (cases k) auto
qed

lemma counted_pool_step: "counted p \<Longrightarrow> counted (pool_step k p)"
proof (cases "k < length (tasks p)")
  case False
  assume "counted p"
  with False show ?thesis by (simp add: pool_step_def)
next
  case True
  assume c: "counted p"
  obtain cs db' t' where s: "task_step (store p) (tasks p ! k) = (cs, db', t')"
    by (cases "task_step (store p) (tasks p ! k)") auto
  have p': "pool_step k p =
      \<lparr>store = db', trace = trace p @ map (Pair k) cs, tasks = (tasks p)[k := t']\<rparr>"
    using True s by (simp add: pool_step_def)
  from count_list_update [OF True, of "\<lambda>t. t = Fulfilled" t'] task_step_count [OF s] c
  show ?thesis
    unfolding counted_def p' by (simp add: addFeed_calls_append split: if_splits)
qed

lemma counted_processFeeds: "counted (processFeeds sched db fs)"
  unfolding processFeeds_def
proof (rule fold_pool_step_induct [where I = counted])
  show "counted \<lparr>store = db, trace = [], tasks = map start_task fs\<rparr>"
    by (simp add: counted_def addFeed_calls_def filter_empty_conv start_task_not_Fulfilled)
qed (rule counted_pool_step)

lemma fulfilled_filter: "fulfilled p \<Longrightarrow> filter (\<lambda>t. t = Fulfilled) (tasks p) = tasks p"
  by (simp add: fulfilled_def list_all_iff)

text \<open>A rejected callback stays rejected and makes no further call.\<close>

lemma settled_pool_step:
  "k < length (tasks p) \<Longrightarrow> tasks p ! k = Rejected e \<Longrightarrow>
   k < length (tasks (pool_step j p)) \<and> tasks (pool_step j p) ! k = Rejected e \<and>
   calls_of k (trace (pool_step j p)) = calls_of k (trace p)"
proof (cases "j < length (tasks p)")
  case False
  assume "k < length (tasks p)" "tasks p ! k = Rejected e"
  with False show ?thesis by (simp add: pool_step_def)
next
  case True
  assume k: "k < length (tasks p)" and r: "tasks p ! k = Rejected e"
  show ?thesis
  proof (cases "j = k")
    case True
    with k r show ?thesis by (simp add: pool_step_def calls_of_append)
  next
    case False
    with k r \<open>j < length (tasks p)\<close> show ?thesis
      by (simp add: pool_step_def calls_of_append split: prod.splits)
  qed
qed

lemma settled_fold:
  "k < length (tasks p) \<Longrightarrow> tasks p ! k = Rejected e \<Longrightarrow>
   k < length (tasks (fold pool_step sched p)) \<and>
   tasks (fold pool_step sched p) ! k = Rejected e \<and>
   calls_of k (trace (fold pool_step sched p)) = calls_of k (trace p)"
proof (induction sched arbitrary: p)
  case Nil
  then show ?case by simp
next
  case (Cons j sched)
  from settled_pool_step [OF Cons.prems, of j] Cons.IH [of "pool_step j p"]
  show ?case by simp
qed

lemma rejected_nth: "k < length (tasks p) \<Longrightarrow> tasks p ! k = Rejected e \<Longrightarrow> rejected p"
  by (force simp: rejected_def list_ex_iff in_set_conv_nth)

lemma fulfilled_no_null:
  assumes "fulfilled (processFeeds sched db fs)"
  shows "None \<notin> set fs"
proof
  assume "None \<in> set fs"
  then obtain k where k: "k < length fs" "fs ! k = None"
    by (auto simp: in_set_conv_nth)
  let ?p0 = "\<lparr>store = db, trace = [], tasks = map start_task fs\<rparr>"
  have "k < length (tasks ?p0)" "tasks ?p0 ! k = Rejected TypeError"
    using k by (simp_all add: start_task_def)
  from settled_fold [OF this, of sched]
  have "k < length (tasks (processFeeds sched db fs))"
    "tasks (processFeeds sched db fs) ! k = Rejected TypeError"
    by (simp_all add: processFeeds_def)
  then have "Rejected TypeError \<in> set (tasks (processFeeds sched db fs))"
    by (metis nth_mem)
  with assms show False
    by (auto simp: fulfilled_def list_all_iff)
qed

lemma userFeeds_no_null:
  "None \<notin> set (userFeeds us) \<Longrightarrow>
   userFeeds us = map (\<lambda>d. Some (Source d)) (concat (map feeds us))"
  by (induction us) (auto simp: userFeeds_def split: if_splits)

text \<open>The calls of a callback determine its program point.\<close>

lemma at_point_step:
  "at_point e h t \<Longrightarrow> task_step db t = (cs, db', t') \<Longrightarrow> at_point e (h @ cs) t'"
proof (cases e)
  case None
  assume "at_point e h t" "task_step db t = (cs, db', t')"
  with None show ?thesis by auto
next
  case (Some d)
  assume a: "at_point e h t" and s: "task_step db t = (cs, db', t')"
  show ?thesis
  proof (cases t)
    case (AwaitByUrl d')
    with a s Some show ?thesis
      by (cases "byUrl db (url_of d)") (auto simp: Let_def enqueue_def resolved_def)
  next
    case (AwaitCreate d')
    with a s Some show ?thesis
      by (cases "create db d") auto
  next
    case (AwaitById i)
    with a s Some show ?thesis
      by (cases "byId db i") (auto simp: enqueue_def resolved_def)
  next
    case (AwaitAddFeed j)
    with a s Some show ?thesis by auto
  next
    case Fulfilled
    with a s Some show ?thesis by auto
  next
    case (Rejected x)
    with a s Some show ?thesis by auto
  qed
qed

lemma traced_pool_step: "traced fs p \<Longrightarrow> traced fs (pool_step j p)"
proof (cases "j < length (tasks p)")
  case False
  assume "traced fs p"
  with False show ?thesis by (simp add: pool_step_def)
next
  case True
  assume t: "traced fs p"
  then have len: "length (tasks p) = length fs" by (simp add: traced_def)
  obtain cs db' t' where s: "task_step (store p) (tasks p ! j) = (cs, db', t')"
    by (cases "task_step (store p) (tasks p ! j)") auto
  have p': "pool_step j p =
      \<lparr>store = db', trace = trace p @ map (Pair j) cs, tasks = (tasks p)[j := t']\<rparr>"
    using True s by (simp add: pool_step_def)
  have "at_point (fs ! k) (calls_of k (trace (pool_step j p))) (tasks (pool_step j p) ! k)"
    if k: "k < length fs" for k
  proof (cases "k = j")
    case True
    from t k have "at_point (fs ! k) (calls_of k (trace p)) (tasks p ! k)"
      by (simp add: traced_def)
    from at_point_step [OF this s [folded True]] k len show ?thesis
      by (simp add: p' calls_of_append True)
  next
    case False
    with t k show ?thesis
      by (simp add: p' calls_of_append traced_def)
  qed
  moreover have "\<forall>e \<in> set (trace (pool_step j p)). fst e < length fs"
    using t True len by (auto simp: p' traced_def)
  ultimately show ?thesis
    using len by (simp add: traced_def p')
qed

lemma at_point_start: "at_point e [] (start_task e)"
  by (cases e) (auto simp: start_task_def)

lemma traced_processFeeds: "traced fs (processFeeds sched db fs)"
  unfolding processFeeds_def
proof (rule fold_pool_step_induct [where I = "traced fs"])
  show "traced fs \<lparr>store = db, trace = [], tasks = map start_task fs\<rparr>"
    by (simp add: traced_def calls_of_def at_point_start)
qed (rule traced_pool_step)

lemma at_point_addFeed:
  "at_point e h t \<Longrightarrow> AddFeed j \<in> set h \<Longrightarrow>
   \<exists>d f pre. e = Some d \<and> h = pre @ [AddFeed j] \<and> j = \<lparr>job_id = feed_id f\<rparr> \<and> resolved d pre f"
proof (cases e)
  case None
  assume "at_point e h t" "AddFeed j \<in> set h"
  with None show ?thesis by auto
next
  case (Some d)
  assume "at_point e h t" "AddFeed j \<in> set h"
  with Some show ?thesis
    by (cases t) (auto simp: resolved_def)
qed

lemma resolved_result: "resolved d pre f \<Longrightarrow> \<exists>c. c \<in> set pre \<and> result_of c = Some f"
  unfolding resolved_def
proof (elim disjE exE)
  assume "pre = [ByUrl (url_of d) (Some f)]"
  then have "ByUrl (url_of d) (Some f) \<in> set pre \<and> result_of (ByUrl (url_of d) (Some f)) = Some f"
    by simp
  then show ?thesis ..
next
  fix i
  assume "pre = [ByUrl (url_of d) None, Create d (Inr i), ById i (Some f)]"
  then have "ById i (Some f) \<in> set pre \<and> result_of (ById i (Some f)) = Some f"
    by simp
  then show ?thesis ..
qed

text \<open>The store of a pool only grows, so what a lookup found stays.\<close>

lemma set_create: "create db d = Inr (i, db') \<Longrightarrow> set db \<subseteq> set db'"
  by (auto simp: create_def split: if_splits)

lemma find_in_set: "find P xs = Some x \<Longrightarrow> x \<in> set xs"
  by (auto simp: find_Some_iff)

lemma task_step_held:
  "task_step db t = (cs, db', t') \<Longrightarrow>
   set db \<subseteq> set db' \<and> (\<forall>c \<in> set cs. \<forall>f. result_of c = Some f \<longrightarrow> f \<in> set db')"
proof (cases t)
  case (AwaitByUrl d)
  assume "task_step db t = (cs, db', t')"
  with AwaitByUrl show ?thesis
    by (auto simp: Let_def byUrl_def dest: find_in_set)
next
  case (AwaitCreate d)
  assume "task_step db t = (cs, db', t')"
  with AwaitCreate show ?thesis
    by (cases "create db d") (auto dest: set_create)
next
  case (AwaitById i)
  assume "task_step db t = (cs, db', t')"
  with AwaitById show ?thesis
    by (auto simp: byId_def dest: find_in_set)
next
  case (AwaitAddFeed j)
  assume "task_step db t = (cs, db', t')"
  with AwaitAddFeed show ?thesis by auto
next
  case Fulfilled
  assume "task_step db t = (cs, db', t')"
  with Fulfilled show ?thesis by auto
next
  case (Rejected e)
  assume "task_step db t = (cs, db', t')"
  with Rejected show ?thesis by auto
qed

lemma held_pool_step: "held p \<Longrightarrow> held (pool_step j p)"
proof (cases "j < length (tasks p)")
  case False
  assume "held p"
  with False show ?thesis by (simp add: pool_step_def)
next
  case True
  assume h: "held p"
  obtain cs db' t' where s: "task_step (store p) (tasks p ! j) = (cs, db', t')"
    by (cases "task_step (store p) (tasks p ! j)") auto
  have p': "pool_step j p =
      \<lparr>store = db', trace = trace p @ map (Pair j) cs, tasks = (tasks p)[j := t']\<rparr>"
    using True s by (simp add: pool_step_def)
  from task_step_held [OF s] h show ?thesis
    unfolding held_def p' by auto
qed

lemma held_processFeeds: "held (processFeeds sched db fs)"
  unfolding processFeeds_def
proof (rule fold_pool_step_induct [where I = held])
  show "held \<lparr>store = db, trace = [], tasks = map start_task fs\<rparr>"
    by (simp add: held_def)
qed (rule held_pool_step)

text \<open>
  A callback that runs alone makes the calls of \<open>updateFeed\<close> and then, if that resolved
  to a feed, \<open>addFeed\<close> with the feed's id: the sequential \<open>updateFeed\<close> above and the
  program points of a callback describe the same code.
\<close>

lemma callback_alone:
  "updateFeed db (Some d) = (cs, db', r) \<Longrightarrow>
   store (processFeeds [0, 0, 0, 0] db [Some d]) = db' \<and>
   trace (processFeeds [0, 0, 0, 0] db [Some d]) =
     map (Pair 0) (cs @ (case r of Inr (Some f) \<Rightarrow> [AddFeed \<lparr>job_id = feed_id f\<rparr>] | _ \<Rightarrow> []))"
proof (cases "byUrl db (url_of d)")
  case None
  assume "updateFeed db (Some d) = (cs, db', r)"
  with None show ?thesis
    by (auto simp: updateFeed_def Let_def processFeeds_def pool_step_def start_task_def
        enqueue_def create_absent byId_created)
next
  case (Some f)
  assume "updateFeed db (Some d) = (cs, db', r)"
  with Some show ?thesis
    by (auto simp: updateFeed_def Let_def processFeeds_def pool_step_def start_task_def
        enqueue_def)
qed

text \<open>A re-read after a create finds the record.\<close>

lemma byId_snoc: "byId db i = Some y \<Longrightarrow> byId (db @ [x]) i = Some y"
  by (simp add: byId_def find_snoc)

lemma task_step_reread:
  assumes "task_step db t = (cs, db', t')"
    and "\<forall>i. t = AwaitById i \<longrightarrow> byId db i \<noteq> None"
  shows "(\<forall>i. t' = AwaitById i \<longrightarrow> byId db' i \<noteq> None) \<and>
         (\<forall>c \<in> set cs. \<forall>i. c \<noteq> ById i None) \<and>
         (\<forall>i. byId db i \<noteq> None \<longrightarrow> byId db' i \<noteq> None)"
proof (cases t)
  case (AwaitByUrl d)
  with assms show ?thesis
    by (auto simp: Let_def enqueue_def split: option.splits)
next
  case (AwaitCreate d)
  with assms show ?thesis
    by (auto simp: create_def byId_created byId_snoc split: if_splits)
next
  case (AwaitById i)
  with assms show ?thesis
    by (auto simp: enqueue_def split: option.splits)
next
  case (AwaitAddFeed j)
  with assms show ?thesis by auto
next
  case Fulfilled
  with assms show ?thesis by auto
next
  case (Rejected e)
  with assms show ?thesis by auto
qed

lemma reread_pool_step: "reread p \<Longrightarrow> reread (pool_step j p)"
proof (cases "j < length (tasks p)")
  case False
  assume "reread p"
  with False show ?thesis by (simp add: pool_step_def)
next
  case True
  assume r: "reread p"
  obtain cs db' t' where s: "task_step (store p) (tasks p ! j) = (cs, db', t')"
    by (cases "task_step (store p) (tasks p ! j)") auto
  have p': "pool_step j p =
      \<lparr>store = db', trace = trace p @ map (Pair j) cs, tasks = (tasks p)[j := t']\<rparr>"
    using True s by (simp add: pool_step_def)
  from True have "tasks p ! j \<in> set (tasks p)" by (rule nth_mem)
  with r have "\<forall>i. tasks p ! j = AwaitById i \<longrightarrow> byId (store p) i \<noteq> None"
    unfolding reread_def by blast
  from task_step_reread [OF s this]
  have 1: "\<forall>i. t' = AwaitById i \<longrightarrow> byId db' i \<noteq> None"
    and 2: "\<forall>c \<in> set cs. \<forall>i. c \<noteq> ById i None"
    and 3: "\<forall>i. byId (store p) i \<noteq> None \<longrightarrow> byId db' i \<noteq> None"
    by blast+
  have "\<forall>t \<in> set ((tasks p)[j := t']). \<forall>i. t = AwaitById i \<longrightarrow> byId db' i \<noteq> None"
  proof (intro ballI allI impI)
    fix t i
    assume t: "t \<in> set ((tasks p)[j := t'])" and a: "t = AwaitById i"
    from t have "t = t' \<or> t \<in> set (tasks p)"
      using set_update_subset_insert by fastforce
    then show "byId db' i \<noteq> None"
    proof
      assume "t = t'"
      with a 1 show ?thesis by simp
    next
      assume "t \<in> set (tasks p)"
      with r a have "byId (store p) i \<noteq> None" by (auto simp: reread_def)
      with 3 show ?thesis by simp
    qed
  qed
  moreover have "\<forall>e \<in> set (trace p @ map (Pair j) cs). \<forall>i. snd e \<noteq> ById i None"
    using r 2 by (auto simp: reread_def)
  ultimately show ?thesis
    unfolding p' reread_def by simp
qed

lemma reread_processFeeds: "reread (processFeeds sched db fs)"
  unfolding processFeeds_def
proof (rule fold_pool_step_induct [where I = reread])
  show "reread \<lparr>store = db, trace = [], tasks = map start_task fs\<rparr>"
    by (auto simp: reread_def start_task_def split: option.splits)
qed (rule reread_pool_step)

text \<open>A lookup of a URL the store held at the start finds the record held at the start.\<close>

lemma byUrl_append: "byUrl db u = Some f \<Longrightarrow> byUrl (db @ ext) u = Some f"
  by (induction db) (auto simp: byUrl_def)

lemma task_step_seen:
  assumes "task_step (db @ ext) t = (cs, db', t')"
  shows "(\<exists>ext'. db' = db @ ext') \<and>
         (\<forall>c \<in> set cs. \<forall>u r f. c = ByUrl u r \<longrightarrow> byUrl db u = Some f \<longrightarrow> r = Some f)"
proof (cases t)
  case (AwaitByUrl d)
  with assms show ?thesis
    by (auto simp: Let_def byUrl_append)
next
  case (AwaitCreate d)
  with assms show ?thesis
    by (auto simp: create_def split: if_splits)
next
  case (AwaitById i)
  with assms show ?thesis by auto
next
  case (AwaitAddFeed j)
  with assms show ?thesis by auto
next
  case Fulfilled
  with assms show ?thesis by auto
next
  case (Rejected e)
  with assms show ?thesis by auto
qed

lemma seen_pool_step: "seen db p \<Longrightarrow> seen db (pool_step j p)"
proof (cases "j < length (tasks p)")
  case False
  assume "seen db p"
  with False show ?thesis by (simp add: pool_step_def)
next
  case True
  assume sn: "seen db p"
  then obtain ext where ext: "store p = db @ ext" by (auto simp: seen_def)
  obtain cs db' t' where s: "task_step (store p) (tasks p ! j) = (cs, db', t')"
    by (cases "task_step (store p) (tasks p ! j)") auto
  have p': "pool_step j p =
      \<lparr>store = db', trace = trace p @ map (Pair j) cs, tasks = (tasks p)[j := t']\<rparr>"
    using True s by (simp add: pool_step_def)
  from task_step_seen [OF s [unfolded ext]] sn show ?thesis
    unfolding p' seen_def by auto
qed

lemma seen_processFeeds: "seen db (processFeeds sched db fs)"
  unfolding processFeeds_def
proof (rule fold_pool_step_induct [where I = "seen db"])
  show "seen db \<lparr>store = db, trace = [], tasks = map start_task fs\<rparr>"
    by (simp add: seen_def)
qed (rule seen_pool_step)

lemma byUrl_distinct:
  "distinct (map url db) \<Longrightarrow> f \<in> set db \<Longrightarrow> byUrl db (url f) = Some f"
  by (induction db) (auto simp: byUrl_def)

text \<open>A settled callback of a pass in which no operation failed has fulfilled.\<close>

lemma settled_fulfilled:
  assumes t: "traced fs p" and r: "reread p"
    and nf: "\<not> list_ex (\<lambda>e. failed (snd e)) (trace p)"
    and k: "k < length fs" and e: "fs ! k = Some d" and st: "is_settled (tasks p ! k)"
  shows "tasks p ! k = Fulfilled"
proof (cases "tasks p ! k")
  case (Rejected x)
  from t k e have "at_point (Some d) (calls_of k (trace p)) (tasks p ! k)"
    by (auto simp: traced_def)
  with Rejected have
    "calls_of k (trace p) = [ByUrl (url_of d) None, Create d (Inl x)] \<or>
     (\<exists>i. calls_of k (trace p) = [ByUrl (url_of d) None, Create d (Inr i), ById i None])"
    by auto
  then show ?thesis
  proof (elim disjE exE)
    assume "calls_of k (trace p) = [ByUrl (url_of d) None, Create d (Inl x)]"
    then have "Create d (Inl x) \<in> set (calls_of k (trace p))" by simp
    then have "(k, Create d (Inl x)) \<in> set (trace p)" by (rule calls_of_mem)
    with nf show ?thesis by (force simp: list_ex_iff)
  next
    fix i
    assume "calls_of k (trace p) = [ByUrl (url_of d) None, Create d (Inr i), ById i None]"
    then have "ById i None \<in> set (calls_of k (trace p))" by simp
    then have "(k, ById i None) \<in> set (trace p)" by (rule calls_of_mem)
    with r show ?thesis by (force simp: reread_def)
  qed
qed (use st in simp_all)

lemma userFeeds_unflagged:
  "list_all (\<lambda>u. \<not> isFlagged u) us \<Longrightarrow>
   userFeeds us = map (\<lambda>d. Some (Source d)) (concat (map feeds us))"
  by (induction us) (auto simp: userFeeds_def)

text \<open>
  A fulfilled callback for a URL the store held when the pool started has made two
  calls: the lookup, which found the record held at the start, and \<open>addFeed\<close> with that
  record's id.
\<close>

lemma fulfilled_known_url:
  assumes t: "traced fs p" and sn: "seen db p"
    and k: "k < length fs" and e: "fs ! k = Some d" and f: "tasks p ! k = Fulfilled"
    and b: "byUrl db (url_of d) = Some g"
  shows "calls_of k (trace p) = [ByUrl (url_of d) (Some g), AddFeed \<lparr>job_id = feed_id g\<rparr>]"
proof -
  from t k e f have "at_point (Some d) (calls_of k (trace p)) Fulfilled"
    by (auto simp: traced_def)
  then obtain f' pre where h: "calls_of k (trace p) = pre @ [AddFeed \<lparr>job_id = feed_id f'\<rparr>]"
    and rs: "resolved d pre f'"
    by auto
  from rs obtain r where pre: "ByUrl (url_of d) r \<in> set pre"
    and c: "r = Some f' \<longrightarrow> pre = [ByUrl (url_of d) (Some f')]" and n: "r = None \<or> r = Some f'"
    unfolding resolved_def by auto
  from pre h have "ByUrl (url_of d) r \<in> set (calls_of k (trace p))" by simp
  then have "(k, ByUrl (url_of d) r) \<in> set (trace p)" by (rule calls_of_mem)
  with sn b have "r = Some g" by (force simp: seen_def)
  with n c h show ?thesis by auto
qed

subsection \<open>A pass that enqueues\<close>

text \<open>
  Against claim C1 as stated: the store holds one feed and the directory lists a source
  for the same URL. The pass succeeds; the persisted feed and the re-discovered source
  are two elements of the array, both resolve to feed 1, and \<open>addFeed\<close> is called twice
  with that one id.
\<close>

theorem rediscovered_feed_enqueued_twice:
  "processAllFeeds [0, 1, 0, 1] (Inr resp_rediscovered) [feedA] =
     ([Fetch, FeedAll],
      \<lparr>store = [feedA],
       trace = [(0, ByUrl ''https://a.example/feed'' (Some feedA)),
                (1, ByUrl ''https://a.example/feed'' (Some feedA)),
                (0, AddFeed \<lparr>job_id = 1\<rparr>), (1, AddFeed \<lparr>job_id = 1\<rparr>)],
       tasks = [Fulfilled, Fulfilled]\<rparr>) \<and>
   fulfilled (snd (processAllFeeds [0, 1, 0, 1] (Inr resp_rediscovered) [feedA])) \<and>
   addFeed_calls (trace (snd (processAllFeeds [0, 1, 0, 1] (Inr resp_rediscovered) [feedA]))) = 2 \<and>
   length (remdups (map feed_id
     (store (snd (processAllFeeds [0, 1, 0, 1] (Inr resp_rediscovered) [feedA]))))) = 1"
  by code_simp

text \<open>
  Claim C1, amended. Take a pass whose fetch returns 200 and whose directory lists no
  flagged user, in which every callback has settled and no store or queue operation has
  failed, under any order in which the callbacks' calls complete. Then every callback has
  fulfilled, and \<open>addFeed\<close> has been called once per element of the array
  \<open>[...all, ...userFeeds]\<close>: the number of calls is the number of persisted feeds plus
  the number of feeds the directory lists, not the number of distinct feed ids. If the
  store held one record per URL at most when the pass started, every persisted feed is
  enqueued with its own id, and every listed source whose URL a persisted feed has is
  enqueued with the id of that persisted feed: a feed that is persisted and listed again
  is enqueued twice, both times with the persisted feed's id.
\<close>

theorem one_addFeed_per_element:
  assumes "status r = 200"
    and "list_all (\<lambda>u. \<not> isFlagged u) (body r)"
    and "list_all is_settled (tasks (snd (processAllFeeds sched (Inr r) db)))"
    and "\<not> list_ex (\<lambda>e. failed (snd e)) (trace (snd (processAllFeeds sched (Inr r) db)))"
  shows "fulfilled (snd (processAllFeeds sched (Inr r) db)) \<and>
         addFeed_calls (trace (snd (processAllFeeds sched (Inr r) db))) =
           length db + length (concat (map feeds (body r))) \<and>
         (distinct (map url db) \<longrightarrow>
            (\<forall>i < length db.
               calls_of i (trace (snd (processAllFeeds sched (Inr r) db))) =
                 [ByUrl (url (db ! i)) (Some (db ! i)), AddFeed \<lparr>job_id = feed_id (db ! i)\<rparr>]) \<and>
            (\<forall>j < length (concat (map feeds (body r))). \<forall>f \<in> set db.
               url f = url (concat (map feeds (body r)) ! j) \<longrightarrow>
               calls_of (length db + j) (trace (snd (processAllFeeds sched (Inr r) db))) =
                 [ByUrl (url f) (Some f), AddFeed \<lparr>job_id = feed_id f\<rparr>]))"
proof -
  let ?srcs = "concat (map feeds (body r))"
  let ?fs = "map (\<lambda>f. Some (Stored f)) db @ map (\<lambda>d. Some (Source d)) ?srcs"
  let ?p = "processFeeds sched db ?fs"
  have p: "snd (processAllFeeds sched (Inr r) db) = ?p"
    using assms(1,2) by (simp add: processAllFeeds_200 userFeeds_unflagged)
  have t: "traced ?fs ?p" by (rule traced_processFeeds)
  have rr: "reread ?p" by (rule reread_processFeeds)
  have sn: "seen db ?p" by (rule seen_processFeeds)
  have len: "length (tasks ?p) = length ?fs" by (rule length_tasks_processFeeds)
  note st = assms(3) [unfolded p]
  note nf = assms(4) [unfolded p]
  have some: "\<exists>d. ?fs ! k = Some d" if "k < length ?fs" for k
    using that by (cases "k < length db") (simp_all add: nth_append)
  have ful: "tasks ?p ! k = Fulfilled" if k: "k < length ?fs" for k
  proof -
    from some [OF k] obtain d where d: "?fs ! k = Some d" ..
    from k len have "tasks ?p ! k \<in> set (tasks ?p)" by simp
    with st have "is_settled (tasks ?p ! k)" by (simp add: list_all_iff)
    from settled_fulfilled [OF t rr nf k d this] show ?thesis .
  qed
  have f: "fulfilled ?p"
    unfolding fulfilled_def list_all_iff
  proof
    fix x assume "x \<in> set (tasks ?p)"
    then obtain k where "k < length (tasks ?p)" "x = tasks ?p ! k"
      by (auto simp: in_set_conv_nth)
    with ful len show "x = Fulfilled" by simp
  qed
  have "addFeed_calls (trace ?p) = length (tasks ?p)"
    using counted_processFeeds [of sched db ?fs]
    by (simp only: counted_def fulfilled_filter [OF f])
  then have c: "addFeed_calls (trace ?p) = length db + length ?srcs"
    by (simp add: len)
  have ids: "calls_of k (trace ?p) = [ByUrl (url g) (Some g), AddFeed \<lparr>job_id = feed_id g\<rparr>]"
    if dist: "distinct (map url db)" and k: "k < length ?fs" and d: "?fs ! k = Some d"
      and g: "g \<in> set db" and u: "url_of d = url g" for k d g
  proof -
    from byUrl_distinct [OF dist g] u have "byUrl db (url_of d) = Some g" by simp
    from fulfilled_known_url [OF t sn k d ful [OF k] this] u show ?thesis by simp
  qed
  have a: "calls_of i (trace ?p) =
      [ByUrl (url (db ! i)) (Some (db ! i)), AddFeed \<lparr>job_id = feed_id (db ! i)\<rparr>]"
    if "distinct (map url db)" and "i < length db" for i
    using that by (intro ids [where d = "Stored (db ! i)"]) (simp_all add: nth_append url_of_def)
  have b: "calls_of (length db + j) (trace ?p) = [ByUrl (url g) (Some g), AddFeed \<lparr>job_id = feed_id g\<rparr>]"
    if "distinct (map url db)" and "j < length ?srcs" and "g \<in> set db" and "url g = url (?srcs ! j)"
    for j g
    using that by (intro ids [where d = "Source (?srcs ! j)"]) (simp_all add: nth_append url_of_def)
  from f c a b show ?thesis
    unfolding p by blast
qed

text \<open>
  The store holds one feed; the directory lists a source for its URL and a new source.
  Three calls: feed 1 twice, the new feed 2 once.
\<close>

theorem one_addFeed_per_element_witness:
  "status resp_mixed = 200 \<and>
   list_all (\<lambda>u. \<not> isFlagged u) (body resp_mixed) \<and>
   list_all is_settled (tasks (snd (processAllFeeds [0, 1, 2, 0, 1, 2, 2, 2] (Inr resp_mixed) [feedA]))) \<and>
   \<not> list_ex (\<lambda>e. failed (snd e))
       (trace (snd (processAllFeeds [0, 1, 2, 0, 1, 2, 2, 2] (Inr resp_mixed) [feedA]))) \<and>
   distinct (map url [feedA]) \<and>
   fulfilled (snd (processAllFeeds [0, 1, 2, 0, 1, 2, 2, 2] (Inr resp_mixed) [feedA])) \<and>
   addFeed_calls (trace (snd (processAllFeeds [0, 1, 2, 0, 1, 2, 2, 2] (Inr resp_mixed) [feedA]))) = 3 \<and>
   calls_of 0 (trace (snd (processAllFeeds [0, 1, 2, 0, 1, 2, 2, 2] (Inr resp_mixed) [feedA]))) =
     [ByUrl (url feedA) (Some feedA), AddFeed \<lparr>job_id = feed_id feedA\<rparr>] \<and>
   calls_of 1 (trace (snd (processAllFeeds [0, 1, 2, 0, 1, 2, 2, 2] (Inr resp_mixed) [feedA]))) =
     [ByUrl (url feedA) (Some feedA), AddFeed \<lparr>job_id = feed_id feedA\<rparr>] \<and>
   feed_id feedA = 1"
proof -
  have 1: "status resp_mixed = 200"
    by (simp add: resp_mixed_def)
  have 2: "list_all (\<lambda>u. \<not> isFlagged u) (body resp_mixed)"
    by (simp add: resp_mixed_def)
  have 3: "list_all is_settled
      (tasks (snd (processAllFeeds [0, 1, 2, 0, 1, 2, 2, 2] (Inr resp_mixed) [feedA])))"
    by code_simp
  have 4: "\<not> list_ex (\<lambda>e. failed (snd e))
      (trace (snd (processAllFeeds [0, 1, 2, 0, 1, 2, 2, 2] (Inr resp_mixed) [feedA])))"
    by code_simp
  have 5: "distinct (map url [feedA])" by simp
  have 6: "concat (map feeds (body resp_mixed)) = [srcA, srcB]"
    by (simp add: resp_mixed_def)
  have 7: "url feedA = url srcA" "feed_id feedA = 1"
    by (simp_all add: feedA_def srcA_def)
  from one_addFeed_per_element [OF 1 2 3 4] 5
  have "fulfilled (snd (processAllFeeds [0, 1, 2, 0, 1, 2, 2, 2] (Inr resp_mixed) [feedA]))"
    and "addFeed_calls (trace (snd (processAllFeeds [0, 1, 2, 0, 1, 2, 2, 2] (Inr resp_mixed) [feedA]))) =
      length [feedA] + length (concat (map feeds (body resp_mixed)))"
    and a: "\<forall>i < length [feedA].
      calls_of i (trace (snd (processAllFeeds [0, 1, 2, 0, 1, 2, 2, 2] (Inr resp_mixed) [feedA]))) =
        [ByUrl (url ([feedA] ! i)) (Some ([feedA] ! i)), AddFeed \<lparr>job_id = feed_id ([feedA] ! i)\<rparr>]"
    and b: "\<forall>j < length (concat (map feeds (body resp_mixed))). \<forall>f \<in> set [feedA].
      url f = url (concat (map feeds (body resp_mixed)) ! j) \<longrightarrow>
      calls_of (length [feedA] + j)
        (trace (snd (processAllFeeds [0, 1, 2, 0, 1, 2, 2, 2] (Inr resp_mixed) [feedA]))) =
        [ByUrl (url f) (Some f), AddFeed \<lparr>job_id = feed_id f\<rparr>]"
    by blast+
  moreover from a have "calls_of 0
      (trace (snd (processAllFeeds [0, 1, 2, 0, 1, 2, 2, 2] (Inr resp_mixed) [feedA]))) =
      [ByUrl (url feedA) (Some feedA), AddFeed \<lparr>job_id = feed_id feedA\<rparr>]"
    by simp
  moreover from b [unfolded 6, rule_format, of 0 feedA] 7(1) have "calls_of 1
      (trace (snd (processAllFeeds [0, 1, 2, 0, 1, 2, 2, 2] (Inr resp_mixed) [feedA]))) =
      [ByUrl (url feedA) (Some feedA), AddFeed \<lparr>job_id = feed_id feedA\<rparr>]"
    by simp
  ultimately show ?thesis
    using 1 2 3 4 5 6 7(2) by simp
qed

text \<open>
  Claim C2. The directory lists a flagged user with one feed and an unflagged user with
  one feed. The flattening of line 71 yields two elements, \<open>null\<close> for the flagged user
  and the unflagged user's source; the callback of \<open>null\<close> rejects with a TypeError, and
  the pass logs \<open>Error queuing feeds\<close>. The flagged user's feed reaches neither the store
  nor the queue.
\<close>

theorem flagged_user_leaves_null:
  "userFeeds (body resp_flagged) = [None, Some (Source srcB)] \<and>
   processAllFeeds [0, 1, 1, 1, 1] (Inr resp_flagged) [] =
     ([Fetch, FeedAll, LogError ''Error queuing feeds''],
      \<lparr>store = [feedB 1],
       trace = [(1, ByUrl ''https://b.example/feed'' None),
                (1, Create (Source srcB) (Inr 1)),
                (1, ById 1 (Some (feedB 1))),
                (1, AddFeed \<lparr>job_id = 1\<rparr>)],
       tasks = [Rejected TypeError, Fulfilled]\<rparr>)"
  by code_simp

text \<open>
  In general a flagged user contributes one \<open>null\<close> to the array, whatever feeds it has,
  and a pass over such an array logs the error under every schedule.
\<close>

lemma flagged_user_rejects_pass:
  assumes "status r = 200" and "u \<in> set (body r)" and "isFlagged u"
  shows "fst (processAllFeeds sched (Inr r) db) = [Fetch, FeedAll, LogError ''Error queuing feeds'']"
proof -
  let ?fs = "map (\<lambda>f. Some (Stored f)) db @ userFeeds (body r)"
  from assms(2,3) have "None \<in> set (userFeeds (body r))"
    by (induction "body r" arbitrary: r) (auto simp: userFeeds_def)
  then have "None \<in> set ?fs" by simp
  then obtain k where k: "k < length ?fs" "?fs ! k = None"
    by (auto simp only: in_set_conv_nth)
  let ?p0 = "\<lparr>store = db, trace = [], tasks = map start_task ?fs\<rparr>"
  have "k < length (tasks ?p0)" "tasks ?p0 ! k = Rejected TypeError"
    using k by (simp_all add: start_task_def del: map_append)
  from settled_fold [OF this, of sched]
  have "k < length (tasks (processFeeds sched db ?fs))"
    "tasks (processFeeds sched db ?fs) ! k = Rejected TypeError"
    by (simp_all add: processFeeds_def)
  then have "rejected (processFeeds sched db ?fs)"
    by (rule rejected_nth)
  with assms(1) show ?thesis
    by (simp add: processAllFeeds_200)
qed

text \<open>
  Against claim C5 as stated: a user lists the same new URL twice. Both lookups complete
  before either create; the second create is rejected with \<open>DuplicateUrl\<close> for a URL
  that exists by then. The second source is not resolved to the existing feed and is not
  enqueued, and the pass logs \<open>Error queuing feeds\<close>.
\<close>

theorem duplicate_create_not_absorbed:
  "processAllFeeds [0, 1, 0, 1, 0, 0] (Inr resp_same_url) [] =
     ([Fetch, FeedAll, LogError ''Error queuing feeds''],
      \<lparr>store = [feedB 1],
       trace = [(0, ByUrl ''https://b.example/feed'' None),
                (1, ByUrl ''https://b.example/feed'' None),
                (0, Create (Source srcB) (Inr 1)),
                (1, Create (Source srcB) (Inl DuplicateUrl)),
                (0, ById 1 (Some (feedB 1))),
                (0, AddFeed \<lparr>job_id = 1\<rparr>)],
       tasks = [Fulfilled, Rejected DuplicateUrl]\<rparr>)"
  by code_simp

text \<open>
  Claim C5, amended. \<open>updateFeed\<close> does not catch a rejected \<open>Feed.create\<close>. When the
  create of a callback is rejected with \<open>DuplicateUrl\<close>, that callback rejects with
  \<open>DuplicateUrl\<close>: its calls are the lookup and the create and nothing else, so its source
  is never enqueued, however the other callbacks run on; \<open>Promise.all\<close> rejects and the
  pass logs \<open>Error queuing feeds\<close>.
\<close>

theorem duplicate_create_fails_the_pass:
  assumes "status r = 200"
    and "k < length (tasks (snd (processAllFeeds s1 (Inr r) db)))"
    and "tasks (snd (processAllFeeds s1 (Inr r) db)) ! k = AwaitCreate d"
    and "create (store (snd (processAllFeeds s1 (Inr r) db))) d = Inl DuplicateUrl"
  shows "tasks (snd (processAllFeeds (s1 @ k # s2) (Inr r) db)) ! k = Rejected DuplicateUrl \<and>
         calls_of k (trace (snd (processAllFeeds (s1 @ k # s2) (Inr r) db))) =
           [ByUrl (url_of d) None, Create d (Inl DuplicateUrl)] \<and>
         fst (processAllFeeds (s1 @ k # s2) (Inr r) db) =
           [Fetch, FeedAll, LogError ''Error queuing feeds'']"
proof -
  let ?fs = "map (\<lambda>f. Some (Stored f)) db @ userFeeds (body r)"
  let ?p1 = "processFeeds s1 db ?fs"
  let ?p2 = "pool_step k ?p1"
  from assms have k: "k < length (tasks ?p1)"
    and a: "tasks ?p1 ! k = AwaitCreate d"
    and c: "create (store ?p1) d = Inl DuplicateUrl"
    by (simp_all add: processAllFeeds_200)
  have t: "traced ?fs ?p1" by (rule traced_processFeeds)
  from k have kf: "k < length ?fs" by (simp only: length_tasks_processFeeds)
  from t kf a have "at_point (?fs ! k) (calls_of k (trace ?p1)) (AwaitCreate d)"
    by (auto simp: traced_def)
  then have h: "calls_of k (trace ?p1) = [ByUrl (url_of d) None]"
    by (cases "?fs ! k") simp_all
  have 2: "k < length (tasks ?p2)" "tasks ?p2 ! k = Rejected DuplicateUrl"
    "calls_of k (trace ?p2) = [ByUrl (url_of d) None, Create d (Inl DuplicateUrl)]"
    using k a c h by (simp_all add: pool_step_def calls_of_def)
  from settled_fold [OF 2(1,2), of s2]
  have 3: "k < length (tasks (fold pool_step s2 ?p2))"
    "tasks (fold pool_step s2 ?p2) ! k = Rejected DuplicateUrl"
    "calls_of k (trace (fold pool_step s2 ?p2)) = calls_of k (trace ?p2)"
    by simp_all
  from rejected_nth [OF 3(1,2)] 3 2(3) assms(1)
  show ?thesis
    by (simp add: processAllFeeds_200 processFeeds_append)
qed

text \<open>
  The pass of the counterexample: after the steps 0, 1, 0 the second callback awaits its
  create and the store holds the URL.
\<close>

theorem duplicate_create_fails_the_pass_witness:
  "status resp_same_url = 200 \<and>
   1 < length (tasks (snd (processAllFeeds [0, 1, 0] (Inr resp_same_url) []))) \<and>
   tasks (snd (processAllFeeds [0, 1, 0] (Inr resp_same_url) [])) ! 1 = AwaitCreate (Source srcB) \<and>
   create (store (snd (processAllFeeds [0, 1, 0] (Inr resp_same_url) []))) (Source srcB) =
     Inl DuplicateUrl \<and>
   tasks (snd (processAllFeeds ([0, 1, 0] @ 1 # [0, 0]) (Inr resp_same_url) [])) ! 1 =
     Rejected DuplicateUrl \<and>
   calls_of 1 (trace (snd (processAllFeeds ([0, 1, 0] @ 1 # [0, 0]) (Inr resp_same_url) []))) =
     [ByUrl (url_of (Source srcB)) None, Create (Source srcB) (Inl DuplicateUrl)] \<and>
   fst (processAllFeeds ([0, 1, 0] @ 1 # [0, 0]) (Inr resp_same_url) []) =
     [Fetch, FeedAll, LogError ''Error queuing feeds'']"
proof -
  have 1: "status resp_same_url = 200"
    by (simp add: resp_same_url_def)
  have 2: "1 < length (tasks (snd (processAllFeeds [0, 1, 0] (Inr resp_same_url) [])))"
    by code_simp
  have 3: "tasks (snd (processAllFeeds [0, 1, 0] (Inr resp_same_url) [])) ! 1 =
      AwaitCreate (Source srcB)"
    by code_simp
  have 4: "create (store (snd (processAllFeeds [0, 1, 0] (Inr resp_same_url) []))) (Source srcB) =
      Inl DuplicateUrl"
    by code_simp
  from duplicate_create_fails_the_pass [OF 1 2 3 4, of "[0, 0]"] 1 2 3 4
  show ?thesis by simp
qed

text \<open>
  Claim C10. Under every schedule and for every array, an \<open>addFeed\<close> call made by the
  callback of element \<open>k\<close> is the last call that callback has made; what precedes it is a
  complete \<open>updateFeed\<close> for that element, and the job is an object whose one field is the
  id of the feed that \<open>updateFeed\<close> resolved to, a record of the store. The discovered
  object itself is never passed to the queue.
\<close>

theorem addFeed_after_updateFeed:
  assumes "(k, AddFeed j) \<in> set (trace (processFeeds sched db fs))"
  shows "\<exists>d f pre. k < length fs \<and> fs ! k = Some d \<and>
           calls_of k (trace (processFeeds sched db fs)) = pre @ [AddFeed j] \<and>
           j = \<lparr>job_id = feed_id f\<rparr> \<and> f \<in> set (store (processFeeds sched db fs)) \<and>
           (pre = [ByUrl (url_of d) (Some f)] \<or>
            (\<exists>i. pre = [ByUrl (url_of d) None, Create d (Inr i), ById i (Some f)]))"
proof -
  let ?p = "processFeeds sched db fs"
  have t: "traced fs ?p" by (rule traced_processFeeds)
  from assms t have k: "k < length fs" by (auto simp: traced_def)
  from assms have "AddFeed j \<in> set (calls_of k (trace ?p))"
    by (force simp: calls_of_def)
  moreover from t k have "at_point (fs ! k) (calls_of k (trace ?p)) (tasks ?p ! k)"
    by (simp add: traced_def)
  ultimately obtain d f pre where
    1: "fs ! k = Some d" "calls_of k (trace ?p) = pre @ [AddFeed j]" "j = \<lparr>job_id = feed_id f\<rparr>"
    and 2: "resolved d pre f"
    using at_point_addFeed [of "fs ! k" "calls_of k (trace ?p)" "tasks ?p ! k" j] by blast
  from resolved_result [OF 2] obtain c where c: "c \<in> set pre" "result_of c = Some f"
    by blast
  then have "c \<in> set (calls_of k (trace ?p))" by (simp add: 1(2))
  then have "(k, c) \<in> set (trace ?p)" by (rule calls_of_mem)
  with held_processFeeds [of sched db fs] c(2) have "f \<in> set (store ?p)"
    by (auto simp: held_def)
  with k 1 2 show ?thesis
    unfolding resolved_def by blast
qed

text \<open>
  A new source and a re-discovered one, interleaved: the callback of the new source
  enqueues the id its re-read resolved to.
\<close>

theorem addFeed_after_updateFeed_witness:
  "(0, AddFeed \<lparr>job_id = 2\<rparr>) \<in>
     set (trace (processFeeds [0, 1, 0, 1, 0, 0] [feedA] [Some (Source srcB), Some (Source srcA)])) \<and>
   calls_of 0 (trace (processFeeds [0, 1, 0, 1, 0, 0] [feedA] [Some (Source srcB), Some (Source srcA)])) =
     [ByUrl ''https://b.example/feed'' None, Create (Source srcB) (Inr 2), ById 2 (Some (feedB 2)),
      AddFeed \<lparr>job_id = 2\<rparr>] \<and>
   (\<exists>d f pre. 0 < length [Some (Source srcB), Some (Source srcA)] \<and>
      [Some (Source srcB), Some (Source srcA)] ! 0 = Some d \<and>
      calls_of 0 (trace (processFeeds [0, 1, 0, 1, 0, 0] [feedA]
        [Some (Source srcB), Some (Source srcA)])) = pre @ [AddFeed \<lparr>job_id = 2\<rparr>] \<and>
      \<lparr>job_id = 2\<rparr> = \<lparr>job_id = feed_id f\<rparr> \<and>
      f \<in> set (store (processFeeds [0, 1, 0, 1, 0, 0] [feedA]
        [Some (Source srcB), Some (Source srcA)])) \<and>
      (pre = [ByUrl (url_of d) (Some f)] \<or>
       (\<exists>i. pre = [ByUrl (url_of d) None, Create d (Inr i), ById i (Some f)])))"
proof -
  have 1: "(0, AddFeed \<lparr>job_id = 2\<rparr>) \<in>
     set (trace (processFeeds [0, 1, 0, 1, 0, 0] [feedA] [Some (Source srcB), Some (Source srcA)]))"
    by code_simp
  have 2: "calls_of 0 (trace (processFeeds [0, 1, 0, 1, 0, 0] [feedA]
      [Some (Source srcB), Some (Source srcA)])) =
     [ByUrl ''https://b.example/feed'' None, Create (Source srcB) (Inr 2), ById 2 (Some (feedB 2)),
      AddFeed \<lparr>job_id = 2\<rparr>]"
    by code_simp
  from addFeed_after_updateFeed [OF 1] 1 2 show ?thesis
    by blast
qed

end
